theory Spec2Isabelle
  imports Main
begin

section \<open>Text: Python strings as lists of code points\<close>

text \<open>
  A Python \<^verbatim>\<open>str\<close> is a sequence of Unicode code points and \<^verbatim>\<open>len\<close> counts code
  points, so a string is a list of natural numbers here (a HOL \<open>char\<close> is one byte and
  could not hold \<^verbatim>\<open>U+3002\<close>). \<open>ascii\<close> reads an ASCII literal as such a list.
  Python's \<^verbatim>\<open>None\<close>, which \<^verbatim>\<open>re.split\<close> puts into its result for a capturing group
  that took no part in a match, is the \<open>None\<close> of \<open>pyval\<close>.
\<close>

type_synonym uchar = nat
type_synonym ustring = "uchar list"
type_synonym pyval = "ustring option"

definition ascii :: "string \<Rightarrow> ustring" where
  "ascii cs = map of_char cs"

text \<open>
  \<^verbatim>\<open>str.isspace\<close> for one code point: the table of CPython's
  \<^verbatim>\<open>_PyUnicode_IsWhitespace\<close>. \<^verbatim>\<open>str.strip()\<close> and the class \<^verbatim>\<open>\s\<close> of a
  \<^verbatim>\<open>str\<close> pattern both use it.
\<close>

definition isspace :: "uchar \<Rightarrow> bool" where
  "isspace c \<longleftrightarrow>
     (0x09 \<le> c \<and> c \<le> 0x0D) \<or> (0x1C \<le> c \<and> c \<le> 0x20) \<or> c = 0x85 \<or> c = 0xA0 \<or>
     c = 0x1680 \<or> (0x2000 \<le> c \<and> c \<le> 0x200A) \<or> c = 0x2028 \<or> c = 0x2029 \<or>
     c = 0x202F \<or> c = 0x205F \<or> c = 0x3000"

definition strip :: "ustring \<Rightarrow> ustring" where
  "strip s = rev (dropWhile isspace (rev (dropWhile isspace s)))"

text \<open>\<^verbatim>\<open>s[b:e]\<close> for indices \<open>0 \<le> b\<close> and \<open>0 \<le> e\<close>: empty when \<open>e \<le> b\<close>, cut at the end of \<open>s\<close>.\<close>

definition py_slice :: "ustring \<Rightarrow> nat \<Rightarrow> nat \<Rightarrow> ustring" where
  "py_slice s b e = take (e - b) (drop b s)"

text \<open>
  \<^verbatim>\<open>xs[:m]\<close> for any integer \<open>m\<close>: a negative \<open>m\<close> counts from the end.
\<close>

definition py_prefix :: "'a list \<Rightarrow> int \<Rightarrow> 'a list" where
  "py_prefix xs m = (if 0 \<le> m then take (nat m) xs else take (nat (int (length xs) + m)) xs)"

text \<open>\<^verbatim>\<open>text.split(c)\<close> for a separator of one character.\<close>

fun split_on :: "uchar \<Rightarrow> ustring \<Rightarrow> ustring list" where
  "split_on c [] = [[]]"
| "split_on c (x # xs) =
     (if x = c then [] # split_on c xs
      else (case split_on c xs of
              [] \<Rightarrow> [[x]]
            | y # ys \<Rightarrow> (x # y) # ys))"

text \<open>\<^verbatim>\<open>range(i, n, step)\<close> for \<open>0 < step\<close>.\<close>

function range_from :: "nat \<Rightarrow> nat \<Rightarrow> nat \<Rightarrow> nat list" where
  "range_from i n step =
     (if step = 0 \<or> n \<le> i then [] else i # range_from (i + step) n step)"
  by pat_completeness auto
termination
  by (relation "measure (\<lambda>(i, n, step). n - i)") auto

section \<open>The regular expressions of the module\<close>

text \<open>
  The patterns written in the source are sequences of three kinds of item: a character
  class repeated one or more times (\<^verbatim>\<open>[...]+\<close>), a class repeated zero or more times
  (\<^verbatim>\<open>\s*\<close>), and a look-behind for one character of a class (\<^verbatim>\<open>(?<=[...])\<close>), in
  two cases with the whole pattern inside one capturing group.
\<close>

datatype cset = Chars "uchar list" | NotChars "uchar list" | Space

fun in_cset :: "cset \<Rightarrow> uchar \<Rightarrow> bool" where
  "in_cset (Chars cs) c = (c \<in> set cs)"
| "in_cset (NotChars cs) c = (c \<notin> set cs)"
| "in_cset Space c = isspace c"

datatype atom = OneOrMore cset | ZeroOrMore cset | LookBehind cset

text \<open>The length of the longest run of characters of the class that starts at position \<open>i\<close>.\<close>

definition run :: "cset \<Rightarrow> ustring \<Rightarrow> nat \<Rightarrow> nat" where
  "run X s i = length (takeWhile (in_cset X) (drop i s))"

text \<open>Backtracking: the alternatives are tried in order and the first success is taken.\<close>

fun first_match :: "(nat \<Rightarrow> nat option) \<Rightarrow> nat list \<Rightarrow> nat option" where
  "first_match f [] = None"
| "first_match f (n # ns) = (case f n of Some e \<Rightarrow> Some e | None \<Rightarrow> first_match f ns)"

text \<open>
  \<open>rx_match as s i accept\<close> matches the items \<open>as\<close> against \<open>s\<close> from position \<open>i\<close>
  and gives the end of the match. A repetition is greedy: it first takes the whole run
  and gives characters back one at a time while the rest of the pattern fails. \<open>accept\<close>
  is the engine's test at the end of the pattern (see \<open>rx_search\<close>); a refused end
  position makes the engine backtrack like any other failure.
\<close>

fun rx_match :: "atom list \<Rightarrow> ustring \<Rightarrow> nat \<Rightarrow> (nat \<Rightarrow> bool) \<Rightarrow> nat option" where
  "rx_match [] s i accept = (if accept i then Some i else None)"
| "rx_match (LookBehind X # as) s i accept =
     (if 0 < i \<and> i \<le> length s \<and> in_cset X (s ! (i - 1)) then rx_match as s i accept else None)"
| "rx_match (OneOrMore X # as) s i accept =
     first_match (\<lambda>n. rx_match as s (i + n) accept) (rev [1..<Suc (run X s i)])"
| "rx_match (ZeroOrMore X # as) s i accept =
     first_match (\<lambda>n. rx_match as s (i + n) accept) (rev [0..<Suc (run X s i)])"

text \<open>The leftmost match that starts at \<open>p\<close> or later; positions up to the end of \<open>s\<close> are tried.\<close>

function rx_scan :: "atom list \<Rightarrow> ustring \<Rightarrow> nat \<Rightarrow> (nat \<times> nat) option" where
  "rx_scan as s p =
     (if length s < p then None
      else (case rx_match as s p (\<lambda>e. True) of
              Some e \<Rightarrow> Some (p, e)
            | None \<Rightarrow> rx_scan as s (Suc p)))"
  by pat_completeness auto
termination
  by (relation "measure (\<lambda>(as, s, p). Suc (length s) - p)") auto

text \<open>
  The engine's search from position \<open>pos\<close>. With \<open>must_advance\<close> set, a match that
  starts at \<open>pos\<close> must not be empty (CPython sets the flag after an empty match, so
  that the next search does not find the same empty match again); later start positions
  are not restricted.
\<close>

definition rx_search :: "atom list \<Rightarrow> ustring \<Rightarrow> nat \<Rightarrow> bool \<Rightarrow> (nat \<times> nat) option" where
  "rx_search as s pos must_advance =
     (if length s < pos then None
      else (case rx_match as s pos (\<lambda>e. \<not> (must_advance \<and> e = pos)) of
              Some e \<Rightarrow> Some (pos, e)
            | None \<Rightarrow> rx_scan as s (Suc pos)))"

section \<open>Compiled patterns, \<^verbatim>\<open>re.split\<close> and \<^verbatim>\<open>re.findall\<close>\<close>

text \<open>
  A compiled pattern is what the two library functions use of it: the number of its
  capturing groups and its search, which gives the start and end of the leftmost match
  from a position and the span of every group that took part in it. A pattern supplied
  by the caller is any such object; what \<^verbatim>\<open>re.compile\<close> makes of the pattern's text is
  the parameter \<open>re_compile\<close> of the functions of the module (see \<open>compile_result\<close>).
\<close>

type_synonym marks = "nat \<Rightarrow> (nat \<times> nat) option"

record pattern =
  groups :: nat
  search :: "ustring \<Rightarrow> nat \<Rightarrow> bool \<Rightarrow> (nat \<times> nat \<times> marks) option"

definition plain :: "atom list \<Rightarrow> pattern" where
  "plain as =
     \<lparr>groups = 0,
      search = (\<lambda>s pos adv. map_option (\<lambda>(b, e). (b, e, (\<lambda>i. None))) (rx_search as s pos adv))\<rparr>"

definition captured :: "atom list \<Rightarrow> pattern" where
  "captured as =
     \<lparr>groups = 1,
      search = (\<lambda>s pos adv.
        map_option (\<lambda>(b, e). (b, e, (\<lambda>i. if i = 1 then Some (b, e) else None)))
          (rx_search as s pos adv))\<rparr>"

text \<open>The items \<^verbatim>\<open>re.split\<close> adds for the groups of a match: the text of each group, or \<^verbatim>\<open>None\<close>.\<close>

definition group_items :: "pattern \<Rightarrow> ustring \<Rightarrow> marks \<Rightarrow> pyval list" where
  "group_items rx s m =
     map (\<lambda>i. map_option (\<lambda>(b, e). py_slice s b e) (m i)) [1..<Suc (groups rx)]"

text \<open>
  The engine's contract: a match found from \<open>lastp\<close> lies between \<open>lastp\<close> and the end of
  the text, and is not the empty match at \<open>lastp\<close> when \<open>must_advance\<close> is set. The loops
  of \<^verbatim>\<open>re.split\<close> and \<^verbatim>\<open>re.findall\<close> end because of it; the model stops the loop at a
  result outside the contract.
\<close>

definition in_contract :: "ustring \<Rightarrow> nat \<Rightarrow> bool \<Rightarrow> nat \<Rightarrow> nat \<Rightarrow> bool" where
  "in_contract s lastp adv b e \<longleftrightarrow> lastp \<le> b \<and> b \<le> e \<and> e \<le> length s \<and> (adv \<longrightarrow> lastp < e)"

text \<open>
  The loop of \<^verbatim>\<open>pattern_split\<close> in CPython (3.7 and later, where an empty match splits
  too): search from \<open>lastp\<close>; add the text before the match and the groups; go on from the
  end of the match, with \<open>must_advance\<close> set when the match was empty; at the end add the
  text after the last match, also when it is empty.
\<close>

function re_split_loop :: "pattern \<Rightarrow> ustring \<Rightarrow> nat \<Rightarrow> bool \<Rightarrow> pyval list" where
  "re_split_loop rx s lastp adv =
     (case search rx s lastp adv of
        None \<Rightarrow> [Some (drop lastp s)]
      | Some (b, e, m) \<Rightarrow>
          if in_contract s lastp adv b e
          then Some (py_slice s lastp b) # group_items rx s m @ re_split_loop rx s e (e = b)
          else [Some (drop lastp s)])"
  by pat_completeness auto
termination
  by (relation "measure (\<lambda>(rx, s, lastp, adv). 2 * (length s - lastp) + (if adv then 0 else 1))")
     (auto simp: in_contract_def)

definition re_split :: "pattern \<Rightarrow> ustring \<Rightarrow> pyval list" where
  "re_split rx s = re_split_loop rx s 0 False"

text \<open>The matches that the same scan finds, one after the other.\<close>

function re_matches :: "pattern \<Rightarrow> ustring \<Rightarrow> nat \<Rightarrow> bool \<Rightarrow> (nat \<times> nat \<times> marks) list" where
  "re_matches rx s lastp adv =
     (case search rx s lastp adv of
        None \<Rightarrow> []
      | Some (b, e, m) \<Rightarrow>
          if in_contract s lastp adv b e
          then (b, e, m) # re_matches rx s e (e = b)
          else [])"
  by pat_completeness auto
termination
  by (relation "measure (\<lambda>(rx, s, lastp, adv). 2 * (length s - lastp) + (if adv then 0 else 1))")
     (auto simp: in_contract_def)

text \<open>
  \<^verbatim>\<open>re.findall\<close> for a pattern with no group (the item is the whole match) or with one
  group (the item is the text of the group, empty when the group took no part). The
  module calls it with its own two patterns only.
\<close>

definition re_findall :: "pattern \<Rightarrow> ustring \<Rightarrow> ustring list" where
  "re_findall rx s =
     map (\<lambda>(b, e, m).
            if groups rx = 0 then py_slice s b e
            else (case m 1 of None \<Rightarrow> [] | Some (gb, ge) \<Rightarrow> py_slice s gb ge))
         (re_matches rx s 0 False)"

section \<open>The module \<^verbatim>\<open>TTS_Streaming_Batch_Nodes.py\<close>\<close>

text \<open>
  The exceptions that can leave the module: \<^verbatim>\<open>range()\<close> with a step of zero;
  \<^verbatim>\<open>.strip()\<close> on a \<^verbatim>\<open>None\<close> of \<^verbatim>\<open>re.split\<close>; and what \<^verbatim>\<open>re.compile\<close> raises other
  than \<^verbatim>\<open>re.error\<close>, which line 152 does not catch (\<^verbatim>\<open>OverflowError\<close> for a repeat
  count that is too large, \<^verbatim>\<open>RecursionError\<close> for a pattern nested too deep). What the
  module prints is kept as a list of events, one for each \<^verbatim>\<open>print\<close> (the report at the end,
  lines 106 to 115, is one event with the count and the preview lines).
\<close>

datatype error = ValueError | AttributeError | OverflowError | RecursionError

text \<open>
  What \<^verbatim>\<open>re.compile\<close> does with the text of a pattern: it returns a compiled pattern,
  raises \<^verbatim>\<open>re.error\<close>, or raises another exception.
\<close>

datatype compile_result = Compiled pattern | ReError | Raised error

datatype diag =
    RegexError
  | TruncationWarning nat int
  | Report nat "ustring list"

subsection \<open>The five names of \<^verbatim>\<open>split_mode\<close> (line 35)\<close>

definition mode_pipe :: ustring where
  "mode_pipe = [0x7AD6, 0x7EBF, 0x5206, 0x5272]"

definition mode_punctuation :: ustring where
  "mode_punctuation = [0x6807, 0x70B9, 0x7B26, 0x53F7]"

definition mode_length :: ustring where
  "mode_length = [0x56FA, 0x5B9A, 0x957F, 0x5EA6]"

definition mode_regex :: ustring where
  "mode_regex = [0x81EA, 0x5B9A, 0x4E49, 0x6B63, 0x5219]"

definition mode_intelligent :: ustring where
  "mode_intelligent = [0x667A, 0x80FD, 0x5206, 0x53E5]"

subsection \<open>The character classes and patterns of the source\<close>

text \<open>
  \<open>delimiters\<close> is the class of lines 128 and 136 (ideographic full stop, fullwidth
  \<^verbatim>\<open>! ? ;\<close>, horizontal ellipsis, \<^verbatim>\<open>! ? . ;\<close>), \<open>terminals\<close> the one of line 158,
  \<open>clause_marks\<close> the one of line 170 (fullwidth comma and semicolon, \<^verbatim>\<open>, ;\<close>).
\<close>

definition delimiters :: "uchar list" where
  "delimiters = [0x3002, 0xFF01, 0xFF1F, 0xFF1B, 0x2026, 0x21, 0x3F, 0x2E, 0x3B]"

definition terminals :: "uchar list" where
  "terminals = [0x3002, 0xFF01, 0xFF1F, 0x21, 0x3F]"

definition clause_marks :: "uchar list" where
  "clause_marks = [0xFF0C, 0xFF1B, 0x2C, 0x3B]"

text \<open>Line 128: \<^verbatim>\<open>[^D]+[D]+\<close>. Line 136: \<^verbatim>\<open>(?<=[D])\s*\<close>. Line 158: \<^verbatim>\<open>([^T]+[T]+)\<close>. Line 170: \<^verbatim>\<open>([^C]+[C]+)\<close>.\<close>

definition keep_pattern :: pattern where
  "keep_pattern = plain [OneOrMore (NotChars delimiters), OneOrMore (Chars delimiters)]"

definition drop_pattern :: pattern where
  "drop_pattern = plain [LookBehind (Chars delimiters), ZeroOrMore Space]"

definition primary_pattern :: pattern where
  "primary_pattern = captured [OneOrMore (NotChars terminals), OneOrMore (Chars terminals)]"

definition clause_pattern :: pattern where
  "clause_pattern = captured [OneOrMore (NotChars clause_marks), OneOrMore (Chars clause_marks)]"

subsection \<open>The strategies\<close>

definition split_by_pipe :: "ustring \<Rightarrow> ustring list" where
  "split_by_pipe text = split_on 0x7C text"

text \<open>
  Lines 130 to 134 and 161 to 165: the matches of \<^verbatim>\<open>findall\<close>, and the text from the
  offset \<^verbatim>\<open>sum(len(s) for s in segments)\<close> on, stripped, when it is not empty.
\<close>

definition with_remaining :: "ustring \<Rightarrow> ustring list \<Rightarrow> ustring list" where
  "with_remaining text segments =
     (let last_match_end = sum_list (map length segments) in
      if last_match_end < length text then
        (let remaining = strip (drop last_match_end text) in
         if remaining \<noteq> [] then segments @ [remaining] else segments)
      else segments)"

definition split_by_punctuation :: "ustring \<Rightarrow> bool \<Rightarrow> pyval list" where
  "split_by_punctuation text keep_delimiter =
     (if keep_delimiter then map Some (with_remaining text (re_findall keep_pattern text))
      else re_split drop_pattern text)"

definition split_by_length :: "ustring \<Rightarrow> int \<Rightarrow> error + ustring list" where
  "split_by_length text len =
     (if len = 0 then Inl ValueError
      else if len < 0 then Inr []
      else Inr (map (\<lambda>i. py_slice text i (i + nat len)) (range_from 0 (length text) (nat len))))"

text \<open>
  Lines 149 to 154. Only \<^verbatim>\<open>re.error\<close> is caught; any other exception of the compilation
  leaves the function.
\<close>

definition split_by_regex ::
  "(ustring \<Rightarrow> compile_result) \<Rightarrow> ustring \<Rightarrow> ustring \<Rightarrow> bool
     \<Rightarrow> diag list \<times> (error + pyval list)" where
  "split_by_regex re_compile text pat keep_delimiter =
     (case re_compile pat of
        Compiled rx \<Rightarrow> ([], Inr (re_split rx text))
      | ReError \<Rightarrow> ([RegexError], Inr (split_by_punctuation text keep_delimiter))
      | Raised e \<Rightarrow> ([], Inl e))"

text \<open>\<^verbatim>\<open>[s for s in xs if s.strip()]\<close> (line 171); \<^verbatim>\<open>None.strip()\<close> raises.\<close>

fun nonblank :: "pyval list \<Rightarrow> error + ustring list" where
  "nonblank [] = Inr []"
| "nonblank (None # xs) = Inl AttributeError"
| "nonblank (Some s # xs) =
     (case nonblank xs of
        Inl e \<Rightarrow> Inl e
      | Inr ys \<Rightarrow> Inr (if strip s \<noteq> [] then s # ys else ys))"

text \<open>The loop of lines 167 to 174.\<close>

fun refine :: "ustring list \<Rightarrow> error + ustring list" where
  "refine [] = Inr []"
| "refine (seg # segments) =
     (if length seg > 100 then
        (case nonblank (re_split clause_pattern seg) of
           Inl e \<Rightarrow> Inl e
         | Inr sub_segs \<Rightarrow>
             (case refine segments of Inl e \<Rightarrow> Inl e | Inr rest \<Rightarrow> Inr (sub_segs @ rest)))
      else (case refine segments of Inl e \<Rightarrow> Inl e | Inr rest \<Rightarrow> Inr (seg # rest)))"

text \<open>
  The loop of lines 176 to 187, with its two variables \<^verbatim>\<open>final_segments\<close> and
  \<^verbatim>\<open>temp\<close> as arguments, and the flush after the loop.
\<close>

fun merge_short :: "ustring list \<Rightarrow> ustring \<Rightarrow> ustring list \<Rightarrow> ustring list" where
  "merge_short final_segments temp [] =
     (if temp \<noteq> [] then final_segments @ [temp] else final_segments)"
| "merge_short final_segments temp (seg # refined_segments) =
     (let seg = strip seg in
      if length temp + length seg < 10 \<and> final_segments \<noteq> []
      then merge_short final_segments (temp @ seg) refined_segments
      else merge_short (if temp \<noteq> [] then final_segments @ [temp] else final_segments)
             seg refined_segments)"

definition split_intelligent :: "ustring \<Rightarrow> error + ustring list" where
  "split_intelligent text =
     (case refine (with_remaining text (re_findall primary_pattern text)) of
        Inl e \<Rightarrow> Inl e
      | Inr refined_segments \<Rightarrow> Inr (merge_short [] [] refined_segments))"

subsection \<open>\<^verbatim>\<open>split_to_batch\<close>\<close>

text \<open>Lines 84 to 93: the strategy chosen by \<^verbatim>\<open>split_mode\<close>; no branch for any other name.\<close>

definition run_strategy ::
  "(ustring \<Rightarrow> compile_result) \<Rightarrow> ustring \<Rightarrow> ustring \<Rightarrow> int \<Rightarrow> ustring \<Rightarrow> bool
     \<Rightarrow> diag list \<times> (error + pyval list)" where
  "run_strategy re_compile text split_mode split_length regex_pattern keep_delimiter =
     (if split_mode = mode_pipe then ([], Inr (map Some (split_by_pipe text)))
      else if split_mode = mode_punctuation
        then ([], Inr (split_by_punctuation text keep_delimiter))
      else if split_mode = mode_length
        then ([], map_sum id (map Some) (split_by_length text split_length))
      else if split_mode = mode_regex
        then split_by_regex re_compile text regex_pattern keep_delimiter
      else if split_mode = mode_intelligent
        then ([], map_sum id (map Some) (split_intelligent text))
      else ([], Inr []))"

text \<open>Line 95: \<^verbatim>\<open>[s.strip() for s in segments if s.strip()]\<close>.\<close>

fun strip_segments :: "pyval list \<Rightarrow> error + ustring list" where
  "strip_segments [] = Inr []"
| "strip_segments (None # xs) = Inl AttributeError"
| "strip_segments (Some s # xs) =
     (case strip_segments xs of
        Inl e \<Rightarrow> Inl e
      | Inr ys \<Rightarrow> Inr (if strip s \<noteq> [] then strip s # ys else ys))"

text \<open>Line 110: a segment of the preview, cut at 60 characters.\<close>

definition preview :: "ustring \<Rightarrow> ustring" where
  "preview seg = take 60 seg @ (if length seg > 60 then ascii ''...'' else [])"

text \<open>Lines 97 to 118, on the segments of line 95.\<close>

definition limit_and_report :: "ustring list \<Rightarrow> int \<Rightarrow> diag list \<times> ustring list" where
  "limit_and_report segments max_segments =
     (let (out, segments) =
            (if int (length segments) > max_segments
             then ([TruncationWarning (length segments) max_segments],
                   py_prefix segments max_segments)
             else ([], segments));
          total = length segments
      in if total = 0 then (out, [])
         else (out @ [Report total (map preview (take 5 segments))], segments))"

definition split_to_batch ::
  "(ustring \<Rightarrow> compile_result) \<Rightarrow> ustring \<Rightarrow> ustring \<Rightarrow> int \<Rightarrow> int \<Rightarrow> ustring \<Rightarrow> bool
     \<Rightarrow> diag list \<times> (error + ustring list)" where
  "split_to_batch re_compile text split_mode max_segments split_length regex_pattern
       keep_delimiter =
     (let text = strip text in
      if text = [] then ([], Inr [])
      else
        (case run_strategy re_compile text split_mode split_length regex_pattern
                keep_delimiter of
           (out, Inl e) \<Rightarrow> (out, Inl e)
         | (out, Inr segments) \<Rightarrow>
             (case strip_segments segments of
                Inl e \<Rightarrow> (out, Inl e)
              | Inr segments \<Rightarrow>
                  (case limit_and_report segments max_segments of
                     (out', segments) \<Rightarrow> (out @ out', Inr segments)))))"

section \<open>Closed forms, to compare the code with\<close>

text \<open>
  The merge rule of the intelligent strategy, on segments that are trimmed and not
  empty. \<open>join_short buf ss\<close> is the rule as the specification words it: the next
  segment joins the buffer when both together are under 10 characters, and otherwise the
  buffer is an element of the result and the segment starts the next one. \<open>merged\<close>
  keeps the first segment as an element by itself and applies the rule from the second
  segment on.
\<close>

fun join_short :: "ustring \<Rightarrow> ustring list \<Rightarrow> ustring list" where
  "join_short buf [] = [buf]"
| "join_short buf (s # ss) =
     (if length buf + length s < 10 then join_short (buf @ s) ss else buf # join_short s ss)"

fun merged :: "ustring list \<Rightarrow> ustring list" where
  "merged [] = []"
| "merged [s] = [s]"
| "merged (s1 # s2 # ss) = s1 # join_short s2 ss"

text \<open>
  The stretches of a text between the matches of a pattern, in the words of the
  specification for the custom-regex strategy: \<open>between s lastp ms\<close> for the matches
  \<open>ms\<close> after position \<open>lastp\<close>; \<open>stretches\<close> trims them and leaves the empty ones out.
\<close>

fun between :: "ustring \<Rightarrow> nat \<Rightarrow> (nat \<times> nat \<times> marks) list \<Rightarrow> ustring list" where
  "between s lastp [] = [drop lastp s]"
| "between s lastp ((b, e, m) # ms) = py_slice s lastp b # between s e ms"

definition stretches :: "pattern \<Rightarrow> ustring \<Rightarrow> ustring list" where
  "stretches rx s = filter (\<lambda>x. x \<noteq> []) (map strip (between s 0 (re_matches rx s 0 False)))"

section \<open>Sample patterns\<close>

text \<open>
  \<^verbatim>\<open>re.compile\<close> on the pattern texts of the examples below: \<^verbatim>\<open>[,]+\<close> and \<^verbatim>\<open>([,]+)\<close>
  compile, \<^verbatim>\<open>a{99999999999999999999}\<close> raises \<^verbatim>\<open>OverflowError\<close> (the repeat count is too
  large), and every other text stands for one that raises \<^verbatim>\<open>re.error\<close>, as
  \<^verbatim>\<open>(unclosed\<close> does.
\<close>

definition sample_compile :: "ustring \<Rightarrow> compile_result" where
  "sample_compile pat =
     (if pat = ascii ''[,]+'' then Compiled (plain [OneOrMore (Chars [0x2C])])
      else if pat = ascii ''([,]+)'' then Compiled (captured [OneOrMore (Chars [0x2C])])
      else if pat = ascii ''a{99999999999999999999}'' then Raised OverflowError
      else ReError)"

section \<open>General facts\<close>

text \<open>
  The equations of the loops are used one step at a time; they are not rewrite rules by
  default.
\<close>

declare rx_scan.simps [simp del]
declare re_split_loop.simps [simp del]
declare re_matches.simps [simp del]
declare range_from.simps [simp del]

subsection \<open>Trimming\<close>

lemma strip_no_leading: "dropWhile isspace (strip s) = strip s"
proof -
  let ?u = "dropWhile isspace s"
  have u: "?u = strip s @ rev (takeWhile isspace (rev ?u))"
    by (metis rev_append rev_rev_ident strip_def takeWhile_dropWhile_id)
  show ?thesis
  proof (cases "strip s")
    case Nil
    then show ?thesis by simp
  next
    case (Cons x xs)
    with u have "?u = x # (xs @ rev (takeWhile isspace (rev ?u)))" by simp
    then have "\<not> isspace x" by (simp add: dropWhile_eq_Cons_conv)
    with Cons show ?thesis by simp
  qed
qed

lemma strip_no_trailing: "dropWhile isspace (rev (strip s)) = rev (strip s)"
  by (simp add: strip_def)

lemma strip_idem: "strip (strip s) = strip s"
  by (simp add: strip_def[of "strip s"] strip_no_leading strip_no_trailing)

lemma strip_Nil: "strip [] = []"
  by (simp add: strip_def)


subsection \<open>Lines 95 to 104\<close>

lemma strip_segments_sound:
  "strip_segments xs = Inr ys \<Longrightarrow> y \<in> set ys \<Longrightarrow> y \<noteq> [] \<and> strip y = y"
proof (induction xs arbitrary: ys rule: strip_segments.induct)
  case 1
  then show ?case by simp
next
  case (2 xs)
  then show ?case by simp
next
  case (3 s xs)
  then show ?case
    by (auto simp: strip_idem split: sum.splits if_splits)
qed

lemma strip_segments_Some:
  "strip_segments (map Some xs) = Inr (filter (\<lambda>s. s \<noteq> []) (map strip xs))"
  by (induction xs) auto

lemma strip_segments_total:
  "None \<notin> set xs \<Longrightarrow> \<exists>ys. strip_segments xs = Inr ys"
  by (induction xs rule: strip_segments.induct) auto

lemma set_py_prefix: "set (py_prefix xs m) \<subseteq> set xs"
  by (auto simp: py_prefix_def dest: in_set_takeD)

lemma snd_limit_and_report:
  "snd (limit_and_report segs m) = (if int (length segs) > m then py_prefix segs m else segs)"
  by (auto simp: limit_and_report_def Let_def)

lemma limit_and_report_eqD:
  "limit_and_report segs m = (out, res) \<Longrightarrow>
     res = (if int (length segs) > m then py_prefix segs m else segs)"
  using snd_limit_and_report[of segs m] by simp

lemma length_py_prefix: "0 \<le> m \<Longrightarrow> int (length (py_prefix xs m)) \<le> m"
  by (simp add: py_prefix_def)

lemma fst_limit_and_report_over:
  "int (length segs) > m \<Longrightarrow> TruncationWarning (length segs) m \<in> set (fst (limit_and_report segs m))"
  by (auto simp: limit_and_report_def Let_def)

subsection \<open>The result of \<^verbatim>\<open>split_to_batch\<close>\<close>

lemma split_to_batch_blank:
  "strip text = [] \<Longrightarrow> split_to_batch rc text mode m L p k = ([], Inr [])"
  by (simp add: split_to_batch_def)

lemma split_to_batch_result:
  assumes "strip text \<noteq> []"
  shows "snd (split_to_batch rc text mode m L p k) =
         (case snd (run_strategy rc (strip text) mode L p k) of
            Inl e \<Rightarrow> Inl e
          | Inr raw \<Rightarrow> (case strip_segments raw of
               Inl e \<Rightarrow> Inl e
             | Inr segs \<Rightarrow> Inr (if int (length segs) > m then py_prefix segs m else segs)))"
  using assms
  by (auto simp: split_to_batch_def Let_def split: prod.splits sum.splits
           dest!: limit_and_report_eqD)

lemma split_to_batch_sound:
  assumes "snd (split_to_batch rc text mode m L p k) = Inr segs" and "s \<in> set segs"
  shows "s \<noteq> [] \<and> strip s = s"
proof (cases "strip text = []")
  case True
  with assms show ?thesis by (simp add: split_to_batch_blank)
next
  case False
  from assms(1) obtain raw cleaned where
    c: "strip_segments raw = Inr cleaned" and
    s: "segs = (if int (length cleaned) > m then py_prefix cleaned m else cleaned)"
    by (auto simp: split_to_batch_result[OF False] split: sum.splits)
  from s assms(2) have "s \<in> set cleaned"
    using set_py_prefix[of cleaned m] by (auto split: if_splits)
  with c show ?thesis by (rule strip_segments_sound)
qed

lemma split_to_batch_full:
  assumes "strip text \<noteq> []"
      and "run_strategy rc (strip text) mode L p k = (out, Inr raw)"
      and "strip_segments raw = Inr segs"
  shows "split_to_batch rc text mode m L p k =
           (out @ fst (limit_and_report segs m), Inr (snd (limit_and_report segs m)))"
  using assms by (simp add: split_to_batch_def Let_def split: prod.splits)

subsection \<open>The punctuation strategy returns strings only\<close>

lemma re_split_loop_no_None:
  "groups rx = 0 \<Longrightarrow> None \<notin> set (re_split_loop rx s lastp adv)"
proof (induction rx s lastp adv rule: re_split_loop.induct)
  case (1 rx s lastp adv)
  show ?case
  proof (cases "search rx s lastp adv")
    case None
    then show ?thesis by (simp add: re_split_loop.simps[of rx s lastp adv])
  next
    case (Some bem)
    obtain b e m where bem: "bem = (b, e, m)" by (cases bem) auto
    show ?thesis
    proof (cases "in_contract s lastp adv b e")
      case True
      with "1.IH"[OF Some bem[symmetric] refl True "1.prems"] Some bem "1.prems" show ?thesis
        by (simp add: re_split_loop.simps[of rx s lastp adv] group_items_def)
    next
      case False
      with Some bem show ?thesis by (simp add: re_split_loop.simps[of rx s lastp adv])
    qed
  qed
qed

lemma split_by_punctuation_no_None: "None \<notin> set (split_by_punctuation text k)"
proof (cases k)
  case True
  then show ?thesis by (auto simp: split_by_punctuation_def)
next
  case False
  have "groups drop_pattern = 0" by (simp add: drop_pattern_def plain_def)
  from re_split_loop_no_None[OF this] False show ?thesis
    by (simp add: split_by_punctuation_def re_split_def)
qed

subsection \<open>The branches of the strategy choice\<close>

lemmas mode_defs =
  mode_pipe_def mode_punctuation_def mode_length_def mode_regex_def mode_intelligent_def

lemma mode_distinct:
  "mode_punctuation \<noteq> mode_pipe"
  "mode_length \<noteq> mode_pipe" "mode_length \<noteq> mode_punctuation"
  "mode_regex \<noteq> mode_pipe" "mode_regex \<noteq> mode_punctuation" "mode_regex \<noteq> mode_length"
  "mode_intelligent \<noteq> mode_pipe" "mode_intelligent \<noteq> mode_punctuation"
  "mode_intelligent \<noteq> mode_length" "mode_intelligent \<noteq> mode_regex"
  by (simp_all add: mode_defs)

lemma run_strategy_pipe:
  "run_strategy rc text mode_pipe L p k = ([], Inr (map Some (split_by_pipe text)))"
  by (simp add: run_strategy_def)

lemma run_strategy_length:
  "run_strategy rc text mode_length L p k = ([], map_sum id (map Some) (split_by_length text L))"
  by (simp add: run_strategy_def mode_distinct)

lemma run_strategy_intelligent:
  "run_strategy rc text mode_intelligent L p k =
     ([], map_sum id (map Some) (split_intelligent text))"
  by (simp add: run_strategy_def mode_distinct)

lemma run_strategy_punctuation:
  "run_strategy rc text mode_punctuation L p k = ([], Inr (split_by_punctuation text k))"
  by (simp add: run_strategy_def mode_distinct)

lemma run_strategy_regex:
  "run_strategy rc text mode_regex L p k =
     (case rc p of
        Compiled rx \<Rightarrow> ([], Inr (re_split rx text))
      | ReError \<Rightarrow> ([RegexError], Inr (split_by_punctuation text k))
      | Raised e \<Rightarrow> ([], Inl e))"
  by (simp add: run_strategy_def mode_distinct split_by_regex_def)

subsection \<open>The offsets of the fixed-length strategy\<close>

lemma range_from_nth:
  "0 < n \<Longrightarrow> k < length (range_from i len n) \<Longrightarrow> range_from i len n ! k = i + k * n"
proof (induction i len n arbitrary: k rule: range_from.induct)
  case (1 i len n)
  show ?case
  proof (cases "len \<le> i")
    case True
    with "1.prems" show ?thesis by (simp add: range_from.simps[of i len n])
  next
    case False
    with "1.prems" "1.IH"[of "k - 1"] show ?thesis
      by (cases k) (auto simp: range_from.simps[of i len n])
  qed
qed

lemma range_from_bound:
  "x \<in> set (range_from i len n) \<Longrightarrow> x < len"
proof (induction i len n rule: range_from.induct)
  case (1 i len n)
  then show ?case
    by (cases "n = 0 \<or> len \<le> i") (auto simp: range_from.simps[of i len n])
qed

lemma range_from_concat:
  "0 < n \<Longrightarrow> concat (map (\<lambda>j. py_slice text j (j + n)) (range_from i (length text) n)) = drop i text"
proof (induction i "length text" n rule: range_from.induct)
  case (1 i n)
  show ?case
  proof (cases "length text \<le> i")
    case True
    then show ?thesis by (simp add: range_from.simps[of i "length text" n])
  next
    case False
    have "take n (drop i text) @ drop (i + n) text = drop i text"
      by (metis append_take_drop_id drop_drop add.commute)
    with False "1.prems" "1.hyps" show ?thesis
      by (simp add: range_from.simps[of i "length text" n] py_slice_def)
  qed
qed

subsection \<open>The third pass of the intelligent strategy\<close>

lemma merge_short_flushed:
  assumes "t \<noteq> []" and "10 \<le> length t \<or> f = []"
  shows "merge_short (f @ [t]) [] segs = merge_short f t segs"
proof (cases segs)
  case Nil
  with assms show ?thesis by simp
next
  case (Cons s rest)
  with assms show ?thesis by (auto simp: Let_def)
qed

lemma merge_short_blank:
  assumes "strip s = []"
  shows "merge_short f t (s # segs) = merge_short f t segs"
proof (cases "t = []")
  case True
  with assms show ?thesis by (simp add: Let_def)
next
  case False
  show ?thesis
  proof (cases "length t < 10 \<and> f \<noteq> []")
    case True
    with assms show ?thesis by (simp add: Let_def)
  next
    case no: False
    then have "10 \<le> length t \<or> f = []" by auto
    from merge_short_flushed[OF False this] no assms False show ?thesis
      by (simp add: Let_def)
  qed
qed

lemma merge_short_filter:
  "merge_short f t segs = merge_short f t (filter (\<lambda>s. strip s \<noteq> []) segs)"
proof (induction segs arbitrary: f t)
  case Nil
  show ?case by simp
next
  case (Cons s segs)
  show ?case
  proof (cases "strip s = []")
    case True
    have "merge_short f t (s # segs) = merge_short f t segs"
      by (rule merge_short_blank[OF True])
    moreover have "filter (\<lambda>s. strip s \<noteq> []) (s # segs) = filter (\<lambda>s. strip s \<noteq> []) segs"
      using True by simp
    ultimately show ?thesis using Cons.IH[of f t] by (simp only:)
  next
    case False
    then show ?thesis using Cons.IH by (simp add: Let_def)
  qed
qed

lemma merge_short_join:
  assumes "\<forall>s \<in> set segs. strip s \<noteq> []" and "f \<noteq> []" and "t \<noteq> []"
  shows "merge_short f t segs = f @ join_short t (map strip segs)"
  using assms
proof (induction segs arbitrary: f t)
  case Nil
  then show ?case by simp
next
  case (Cons s segs)
  then show ?case by (simp add: Let_def)
qed

lemma merge_short_merged:
  assumes "\<forall>s \<in> set segs. strip s \<noteq> []"
  shows "merge_short [] [] segs = merged (map strip segs)"
proof (cases segs)
  case Nil
  then show ?thesis by simp
next
  case (Cons s1 rest)
  show ?thesis
  proof (cases rest)
    case Nil
    with Cons assms show ?thesis by (simp add: Let_def)
  next
    case (Cons s2 rest')
    with \<open>segs = s1 # rest\<close> assms
    have "merge_short [strip s1] (strip s2) rest' = [strip s1] @ join_short (strip s2) (map strip rest')"
      by (intro merge_short_join) auto
    with Cons \<open>segs = s1 # rest\<close> assms show ?thesis by (simp add: Let_def)
  qed
qed

subsection \<open>\<^verbatim>\<open>re.split\<close> for a pattern without groups\<close>

lemma re_split_loop_between:
  "groups rx = 0 \<Longrightarrow>
     re_split_loop rx s lastp adv = map Some (between s lastp (re_matches rx s lastp adv))"
proof (induction rx s lastp adv rule: re_split_loop.induct)
  case (1 rx s lastp adv)
  show ?case
  proof (cases "search rx s lastp adv")
    case None
    then show ?thesis
      by (simp add: re_split_loop.simps[of rx s lastp adv] re_matches.simps[of rx s lastp adv])
  next
    case (Some bem)
    obtain b e m where bem: "bem = (b, e, m)" by (cases bem) auto
    show ?thesis
    proof (cases "in_contract s lastp adv b e")
      case True
      with "1.IH"[OF Some bem[symmetric] refl True "1.prems"] Some bem "1.prems" show ?thesis
        by (simp add: re_split_loop.simps[of rx s lastp adv] re_matches.simps[of rx s lastp adv]
            group_items_def)
    next
      case False
      with Some bem show ?thesis
        by (simp add: re_split_loop.simps[of rx s lastp adv] re_matches.simps[of rx s lastp adv])
    qed
  qed
qed

lemma between_Nil: "x \<in> set (between [] lastp ms) \<Longrightarrow> x = []"
  by (induction ms arbitrary: lastp) (auto simp: py_slice_def)

lemma stretches_Nil: "stretches rx [] = []"
  by (auto simp: stretches_def filter_empty_conv strip_Nil dest: between_Nil)

subsection \<open>The patterns of the module keep the engine's contract\<close>

text \<open>
  A match found by \<open>rx_search\<close> lies inside the text, at or after the start position,
  and is not empty at the start position when \<open>must_advance\<close> is set. So the test
  \<open>in_contract\<close> in \<open>re_split_loop\<close> and \<open>re_matches\<close> never stops a loop over one of
  the module's own patterns.
\<close>

lemma first_match_SomeD:
  "first_match f ns = Some e \<Longrightarrow> \<exists>n \<in> set ns. f n = Some e"
  by (induction ns) (auto split: option.splits)

lemma run_le: "i + run X s i \<le> length s" if "i \<le> length s"
proof -
  have "run X s i \<le> length (drop i s)"
    unfolding run_def by (rule length_takeWhile_le)
  with that show ?thesis by simp
qed

lemma rx_match_bounds:
  "rx_match as s i accept = Some e \<Longrightarrow> i \<le> length s \<Longrightarrow> i \<le> e \<and> e \<le> length s \<and> accept e"
proof (induction as arbitrary: i)
  case Nil
  then show ?case by (simp split: if_splits)
next
  case (Cons a as)
  show ?case
  proof (cases a)
    case (OneOrMore X)
    with Cons.prems have "first_match (\<lambda>n. rx_match as s (i + n) accept)
        (rev [1..<Suc (run X s i)]) = Some e"
      by simp
    from first_match_SomeD[OF this]
    obtain n where "n \<in> set (rev [1..<Suc (run X s i)])"
      and m: "rx_match as s (i + n) accept = Some e"
      by blast
    then have "n \<le> run X s i" by auto
    with Cons.IH[OF m] run_le[OF Cons.prems(2), of X] show ?thesis by simp
  next
    case (ZeroOrMore X)
    with Cons.prems have "first_match (\<lambda>n. rx_match as s (i + n) accept)
        (rev [0..<Suc (run X s i)]) = Some e"
      by simp
    from first_match_SomeD[OF this]
    obtain n where "n \<in> set (rev [0..<Suc (run X s i)])"
      and m: "rx_match as s (i + n) accept = Some e"
      by blast
    then have "n \<le> run X s i" by auto
    with Cons.IH[OF m] run_le[OF Cons.prems(2), of X] show ?thesis by simp
  next
    case (LookBehind X)
    with Cons show ?thesis by (auto split: if_splits)
  qed
qed

lemma rx_scan_bounds:
  "rx_scan as s p = Some (b, e) \<Longrightarrow> p \<le> b \<and> b \<le> e \<and> e \<le> length s"
proof (induction as s p rule: rx_scan.induct)
  case (1 as s p)
  show ?case
  proof (cases "length s < p")
    case True
    with "1.prems" show ?thesis by (simp add: rx_scan.simps[of as s p])
  next
    case False
    show ?thesis
    proof (cases "rx_match as s p (\<lambda>e. True)")
      case None
      with False "1.prems" "1.IH" show ?thesis
        by (fastforce simp: rx_scan.simps[of as s p])
    next
      case (Some e')
      with False "1.prems" rx_match_bounds[OF Some] show ?thesis
        by (simp add: rx_scan.simps[of as s p])
    qed
  qed
qed

lemma rx_search_in_contract:
  assumes "rx_search as s pos adv = Some (b, e)"
  shows "in_contract s pos adv b e"
proof (cases "rx_match as s pos (\<lambda>e. \<not> (adv \<and> e = pos))")
  case None
  with assms have "rx_scan as s (Suc pos) = Some (b, e)"
    by (simp add: rx_search_def split: if_splits)
  from rx_scan_bounds[OF this] show ?thesis by (simp add: in_contract_def)
next
  case (Some e')
  with assms have "\<not> length s < pos" and "b = pos" and "e' = e"
    by (auto simp: rx_search_def split: if_splits)
  with rx_match_bounds[OF Some] show ?thesis by (auto simp: in_contract_def)
qed

lemma plain_in_contract:
  "search (plain as) s pos adv = Some (b, e, m) \<Longrightarrow> in_contract s pos adv b e"
  by (auto simp: plain_def dest: rx_search_in_contract)

lemma captured_in_contract:
  "search (captured as) s pos adv = Some (b, e, m) \<Longrightarrow> in_contract s pos adv b e"
  by (auto simp: captured_def dest: rx_search_in_contract)

subsection \<open>The matches of \<^verbatim>\<open>[^cs]+[cs]+\<close>\<close>

lemma run_inside:
  assumes "n < run X s i"
  shows "i + n < length s \<and> in_cset X (s ! (i + n))"
proof -
  let ?xs = "drop i s"
  from assms have n: "n < length (takeWhile (in_cset X) ?xs)" by (simp add: run_def)
  also have "\<dots> \<le> length ?xs" by (rule length_takeWhile_le)
  finally have l: "i + n < length s" by simp
  from n have "takeWhile (in_cset X) ?xs ! n \<in> set (takeWhile (in_cset X) ?xs)" by simp
  then have "in_cset X (takeWhile (in_cset X) ?xs ! n)" by (rule set_takeWhileD[THEN conjunct2])
  with n have "in_cset X (?xs ! n)" by (simp add: takeWhile_nth)
  with l show ?thesis by simp
qed

lemma run_stops:
  assumes "i + run X s i < length s"
  shows "\<not> in_cset X (s ! (i + run X s i))"
proof -
  let ?xs = "drop i s"
  from assms have "length (takeWhile (in_cset X) ?xs) < length ?xs" by (simp add: run_def)
  then have "\<not> in_cset X (?xs ! length (takeWhile (in_cset X) ?xs))"
    by (rule nth_length_takeWhile)
  with assms show ?thesis by (simp add: run_def)
qed

lemma run_zero:
  "run X s i = 0 \<longleftrightarrow> length s \<le> i \<or> \<not> in_cset X (s ! i)"
proof (cases "length s \<le> i")
  case True
  then show ?thesis by (simp add: run_def)
next
  case False
  then obtain x xs where "drop i s = x # xs" and "x = s ! i"
    by (metis Cons_nth_drop_Suc not_le)
  then show ?thesis using False by (simp add: run_def)
qed

lemma first_match_None:
  "(\<And>n. n \<in> set ns \<Longrightarrow> f n = None) \<Longrightarrow> first_match f ns = None"
  by (induction ns) auto

lemma first_match_greedy:
  "lo \<le> hi \<Longrightarrow>
     first_match f (rev [lo..<Suc hi])
       = (case f hi of Some e \<Rightarrow> Some e | None \<Rightarrow> first_match f (rev [lo..<hi]))"
  by simp

lemma rx_match_one_run:
  "rx_match [OneOrMore X] s j (\<lambda>e. True)
     = (if 0 < run X s j then Some (j + run X s j) else None)"
  by (cases "run X s j") simp_all

text \<open>A match of \<^verbatim>\<open>[^cs]+[cs]+\<close> at a position: the two longest runs, when neither is empty.\<close>

lemma rx_match_two_runs:
  "rx_match [OneOrMore (NotChars cs), OneOrMore (Chars cs)] s i (\<lambda>e. True)
     = (if 0 < run (NotChars cs) s i \<and> 0 < run (Chars cs) s (i + run (NotChars cs) s i)
        then Some (i + run (NotChars cs) s i + run (Chars cs) s (i + run (NotChars cs) s i))
        else None)"
proof -
  define f where "f = (\<lambda>n. rx_match [OneOrMore (Chars cs)] s (i + n) (\<lambda>e. True))"
  define a where "a = run (NotChars cs) s i"
  have unfold: "rx_match [OneOrMore (NotChars cs), OneOrMore (Chars cs)] s i (\<lambda>e. True)
      = first_match f (rev [1..<Suc a])"
    unfolding f_def a_def by (rule rx_match.simps(3))
  have one: "f n = (if 0 < run (Chars cs) s (i + n)
      then Some (i + n + run (Chars cs) s (i + n)) else None)" for n
    unfolding f_def by (rule rx_match_one_run)
  have shorter: "f n = None" if "n \<in> set (rev [1..<a])" for n
  proof -
    from that have "n < run (NotChars cs) s i" by (simp add: a_def)
    from run_inside[OF this] have "run (Chars cs) s (i + n) = 0"
      by (simp add: run_zero)
    then show ?thesis by (simp add: one)
  qed
  show ?thesis
  proof (cases "a = 0")
    case True
    then show ?thesis unfolding unfold by (simp add: a_def[symmetric])
  next
    case False
    then have "1 \<le> a" by simp
    then have g: "first_match f (rev [1..<Suc a])
        = (case f a of Some e \<Rightarrow> Some e | None \<Rightarrow> first_match f (rev [1..<a]))"
      by (rule first_match_greedy)
    have n: "first_match f (rev [1..<a]) = None"
      by (rule first_match_None) (rule shorter)
    have "first_match f (rev [1..<Suc a]) = (case f a of Some e \<Rightarrow> Some e | None \<Rightarrow> None)"
      unfolding g n ..
    with False show ?thesis
      unfolding unfold by (simp add: one a_def[symmetric] add.assoc)
  qed
qed

lemma no_later_match:
  assumes "p = length s \<or> (p < length s \<and> s ! p \<notin> set cs)"
      and "rx_match [OneOrMore (NotChars cs), OneOrMore (Chars cs)] s p (\<lambda>e. True) = None"
      and "p < q"
  shows "rx_match [OneOrMore (NotChars cs), OneOrMore (Chars cs)] s q (\<lambda>e. True) = None"
proof (rule ccontr)
  assume "rx_match [OneOrMore (NotChars cs), OneOrMore (Chars cs)] s q (\<lambda>e. True) \<noteq> None"
  then have "0 < run (Chars cs) s (q + run (NotChars cs) s q)"
    unfolding rx_match_two_runs by (simp split: if_splits)
  then have d: "q + run (NotChars cs) s q < length s"
    and "s ! (q + run (NotChars cs) s q) \<in> set cs"
    using run_zero[of "Chars cs" s "q + run (NotChars cs) s q"] by auto
  with assms(1,3) have "0 < run (NotChars cs) s p"
    using run_zero[of "NotChars cs" s p] by auto
  with assms(2) have "run (Chars cs) s (p + run (NotChars cs) s p) = 0"
    unfolding rx_match_two_runs by (simp split: if_splits)
  have "length s \<le> p + run (NotChars cs) s p"
  proof (rule ccontr)
    assume "\<not> length s \<le> p + run (NotChars cs) s p"
    then have lt: "p + run (NotChars cs) s p < length s" by simp
    from run_stops[OF lt] have "s ! (p + run (NotChars cs) s p) \<in> set cs" by simp
    with lt have "run (Chars cs) s (p + run (NotChars cs) s p) \<noteq> 0"
      by (simp add: run_zero)
    with \<open>run (Chars cs) s (p + run (NotChars cs) s p) = 0\<close> show False by simp
  qed
  with d assms(3) have "q + run (NotChars cs) s q - p < run (NotChars cs) s p"
    by simp
  from run_inside[OF this] assms(3) have "s ! (q + run (NotChars cs) s q) \<notin> set cs"
    by simp
  with \<open>s ! (q + run (NotChars cs) s q) \<in> set cs\<close> show False by simp
qed

lemma rx_scan_None:
  "(\<And>q. p \<le> q \<Longrightarrow> rx_match as s q (\<lambda>e. True) = None) \<Longrightarrow> rx_scan as s p = None"
proof (induction as s p rule: rx_scan.induct)
  case (1 as s p)
  show ?case
  proof (cases "length s < p")
    case True
    then show ?thesis by (simp add: rx_scan.simps[of as s p])
  next
    case False
    have "rx_match as s p (\<lambda>e. True) = None" by (rule "1.prems") simp
    moreover from this False have "rx_scan as s (Suc p) = None"
      by (intro "1.IH") (auto intro: "1.prems")
    ultimately show ?thesis using False by (simp add: rx_scan.simps[of as s p])
  qed
qed

text \<open>
  From a position that is not at a character of \<open>cs\<close>, the leftmost match of
  \<^verbatim>\<open>[^cs]+[cs]+\<close> starts at that position, or there is no match at all.
\<close>

lemma rx_search_two_runs:
  assumes "p = length s \<or> (p < length s \<and> s ! p \<notin> set cs)"
  shows "rx_search [OneOrMore (NotChars cs), OneOrMore (Chars cs)] s p False
     = (case rx_match [OneOrMore (NotChars cs), OneOrMore (Chars cs)] s p (\<lambda>e. True) of
          Some e \<Rightarrow> Some (p, e)
        | None \<Rightarrow> None)"
proof (cases "rx_match [OneOrMore (NotChars cs), OneOrMore (Chars cs)] s p (\<lambda>e. True)")
  case None
  have "rx_scan [OneOrMore (NotChars cs), OneOrMore (Chars cs)] s (Suc p) = None"
    by (rule rx_scan_None) (rule no_later_match[OF assms None], simp)
  with None assms show ?thesis by (auto simp: rx_search_def)
next
  case (Some e)
  with assms show ?thesis by (auto simp: rx_search_def)
qed

text \<open>
  So the matches that \<^verbatim>\<open>findall\<close> finds for \<^verbatim>\<open>[^cs]+[cs]+\<close> from such a position follow
  one another without a gap: together they are a prefix of the rest of the text.
\<close>

lemma two_runs_matches_contiguous:
  assumes "p = length s \<or> (p < length s \<and> s ! p \<notin> set cs)"
  shows "concat (map (\<lambda>(b, e, m). py_slice s b e)
            (re_matches (plain [OneOrMore (NotChars cs), OneOrMore (Chars cs)]) s p False))
         = take (length (concat (map (\<lambda>(b, e, m). py_slice s b e)
            (re_matches (plain [OneOrMore (NotChars cs), OneOrMore (Chars cs)]) s p False))))
             (drop p s)"
  using assms
proof (induction "length s - p" arbitrary: p rule: less_induct)
  case less
  let ?as = "[OneOrMore (NotChars cs), OneOrMore (Chars cs)]"
  let ?texts = "\<lambda>q. concat (map (\<lambda>(b, e, m). py_slice s b e) (re_matches (plain ?as) s q False))"
  from less.prems have p: "p \<le> length s" by auto
  show ?case
  proof (cases "rx_match ?as s p (\<lambda>e. True)")
    case None
    with less.prems have "search (plain ?as) s p False = None"
      by (simp add: plain_def rx_search_two_runs)
    then show ?thesis by (simp add: re_matches.simps[of "plain ?as" s p False])
  next
    case (Some e)
    from rx_match_bounds[OF Some p] have e: "p \<le> e" "e \<le> length s" by simp_all
    from Some have runs: "0 < run (NotChars cs) s p"
      "0 < run (Chars cs) s (p + run (NotChars cs) s p)"
      "e = p + run (NotChars cs) s p + run (Chars cs) s (p + run (NotChars cs) s p)"
      unfolding rx_match_two_runs by (simp_all split: if_splits)
    then have pe: "p < e" by simp
    have after: "e = length s \<or> (e < length s \<and> s ! e \<notin> set cs)"
    proof (cases "e < length s")
      case True
      with run_stops[of "p + run (NotChars cs) s p" "Chars cs" s] runs(3) show ?thesis by simp
    next
      case False
      with e show ?thesis by simp
    qed
    from Some less.prems have "search (plain ?as) s p False = Some (p, e, \<lambda>i. None)"
      by (simp add: plain_def rx_search_two_runs)
    with e pe have step: "re_matches (plain ?as) s p False
        = (p, e, \<lambda>i. None) # re_matches (plain ?as) s e False"
      by (simp add: re_matches.simps[of "plain ?as" s p False] in_contract_def)
    from pe e have "length s - e < length s - p" by simp
    from less.hyps[OF this after] have rest: "?texts e = take (length (?texts e)) (drop e s)" .
    have "?texts p = py_slice s p e @ ?texts e"
      by (simp add: step)
    also have "\<dots> = take (e - p) (drop p s) @ take (length (?texts e)) (drop (e - p) (drop p s))"
      using rest e by (simp add: py_slice_def)
    also have "\<dots> = take (e - p + length (?texts e)) (drop p s)"
      by (simp add: take_add)
    also have "e - p + length (?texts e) = length (?texts p)"
      using e by (simp add: step py_slice_def)
    finally show ?thesis .
  qed
qed

lemma keep_matches_contiguous:
  assumes "text = [] \<or> hd text \<notin> set delimiters"
  shows "concat (re_findall keep_pattern text)
         = take (sum_list (map length (re_findall keep_pattern text))) text"
proof -
  from assms have "0 = length text \<or> (0 < length text \<and> text ! 0 \<notin> set delimiters)"
    by (cases "text") auto
  from two_runs_matches_contiguous[OF this] show ?thesis
    by (simp add: re_findall_def keep_pattern_def plain_def length_concat comp_def
        case_prod_unfold)
qed

text \<open>
  For a text that does not begin with a delimiter, line 130 does compute the end of the
  last match, and the result of the punctuation strategy with \<open>keep_delimiter = True\<close> is
  the matches followed by the trimmed rest of the text, when that is not empty.
\<close>

lemma keep_result_without_leading_delimiter:
  assumes "text = [] \<or> hd text \<notin> set delimiters"
  shows "\<exists>rest. text = concat (re_findall keep_pattern text) @ rest
     \<and> split_by_punctuation text True
       = map Some (re_findall keep_pattern text @ (if strip rest = [] then [] else [strip rest]))"
proof -
  let ?ms = "re_findall keep_pattern text"
  let ?n = "sum_list (map length ?ms)"
  have "text = take ?n text @ drop ?n text" by simp
  with keep_matches_contiguous[OF assms] have whole: "text = concat ?ms @ drop ?n text"
    by simp
  have "split_by_punctuation text True
      = map Some (?ms @ (if strip (drop ?n text) = [] then [] else [strip (drop ?n text)]))"
    by (simp add: split_by_punctuation_def with_remaining_def Let_def strip_Nil)
  with whole show ?thesis by blast
qed

subsection \<open>The matches of \<^verbatim>\<open>(?<=[cs])\s*\<close>\<close>

lemma rx_scan_start:
  "rx_scan as s p = Some (b, e) \<Longrightarrow> rx_match as s b (\<lambda>e. True) = Some e"
proof (induction as s p rule: rx_scan.induct)
  case (1 as s p)
  then show ?case
    by (cases "length s < p"; cases "rx_match as s p (\<lambda>e. True)")
       (auto simp: rx_scan.simps[of as s p])
qed

lemma rx_search_start:
  assumes "rx_search as s pos adv = Some (b, e)"
  shows "\<exists>accept. rx_match as s b accept = Some e"
proof (cases "rx_match as s pos (\<lambda>e. \<not> (adv \<and> e = pos))")
  case None
  with assms have "rx_scan as s (Suc pos) = Some (b, e)"
    by (simp add: rx_search_def split: if_splits)
  from rx_scan_start[OF this] show ?thesis by blast
next
  case (Some e')
  with assms have "b = pos" and "e' = e"
    by (auto simp: rx_search_def split: if_splits)
  with Some show ?thesis by blast
qed

text \<open>A match of \<^verbatim>\<open>(?<=[cs])\s*\<close> holds white space only.\<close>

lemma drop_match_is_space:
  assumes "rx_match [LookBehind X, ZeroOrMore Space] s b accept = Some e"
  shows "b \<le> e \<and> e \<le> b + run Space s b"
proof -
  from assms have "first_match (\<lambda>n. rx_match [] s (b + n) accept) (rev [0..<Suc (run Space s b)])
      = Some e"
    by (simp split: if_splits)
  from first_match_SomeD[OF this] obtain n where "n \<in> set (rev [0..<Suc (run Space s b)])"
    and "rx_match [] s (b + n) accept = Some e"
    by blast
  then show ?thesis by (auto split: if_splits)
qed

lemma slice_of_run:
  assumes "b \<le> e" and "e \<le> b + run X s b" and "c \<in> set (py_slice s b e)"
  shows "in_cset X c"
proof -
  from assms(3) obtain k where k: "k < length (py_slice s b e)" and c: "c = py_slice s b e ! k"
    by (auto simp: in_set_conv_nth)
  then have "k < e - b" by (simp add: py_slice_def)
  with assms(2) have r: "k < run X s b" by simp
  from run_inside[OF r] k c show ?thesis by (simp add: py_slice_def)
qed

text \<open>
  When every match holds white space only, the stretches between the matches hold every
  other character of the text, in order.
\<close>

lemma between_keeps_other_text:
  assumes "\<And>b e m c. (b, e, m) \<in> set (re_matches rx s lastp adv) \<Longrightarrow>
             c \<in> set (py_slice s b e) \<Longrightarrow> isspace c"
  shows "filter (\<lambda>c. \<not> isspace c) (concat (between s lastp (re_matches rx s lastp adv)))
         = filter (\<lambda>c. \<not> isspace c) (drop lastp s)"
  using assms
proof (induction rx s lastp adv rule: re_matches.induct)
  case (1 rx s lastp adv)
  show ?case
  proof (cases "search rx s lastp adv")
    case None
    then show ?thesis by (simp add: re_matches.simps[of rx s lastp adv])
  next
    case (Some bem)
    obtain b e m where bem: "bem = (b, e, m)" by (cases bem) auto
    show ?thesis
    proof (cases "in_contract s lastp adv b e")
      case False
      with Some bem show ?thesis by (simp add: re_matches.simps[of rx s lastp adv])
    next
      case True
      with Some bem have step: "re_matches rx s lastp adv = (b, e, m) # re_matches rx s e (e = b)"
        by (simp add: re_matches.simps[of rx s lastp adv])
      have rest: "filter (\<lambda>c. \<not> isspace c) (concat (between s e (re_matches rx s e (e = b))))
          = filter (\<lambda>c. \<not> isspace c) (drop e s)"
        by (rule "1.IH"[OF Some bem[symmetric] refl True]) (auto simp: step intro: "1.prems")
      have space: "filter (\<lambda>c. \<not> isspace c) (py_slice s b e) = []"
        using "1.prems"[of b e m] by (auto simp: step filter_empty_conv)
      from True have "drop lastp s = py_slice s lastp b @ py_slice s b e @ drop e s"
        by (metis append_take_drop_id drop_drop in_contract_def le_add_diff_inverse2 py_slice_def)
      then show ?thesis
        by (simp add: step rest space)
    qed
  qed
qed

lemma re_matches_found:
  "(b, e, m) \<in> set (re_matches rx s lastp adv) \<Longrightarrow>
     \<exists>pos must_advance. search rx s pos must_advance = Some (b, e, m)"
proof (induction rx s lastp adv rule: re_matches.induct)
  case (1 rx s lastp adv)
  show ?case
  proof (cases "search rx s lastp adv")
    case None
    with "1.prems" show ?thesis by (simp add: re_matches.simps[of rx s lastp adv])
  next
    case (Some bem)
    obtain b' e' m' where bem: "bem = (b', e', m')" by (cases bem) auto
    show ?thesis
    proof (cases "in_contract s lastp adv b' e'")
      case False
      with Some bem "1.prems" show ?thesis by (simp add: re_matches.simps[of rx s lastp adv])
    next
      case True
      with Some bem "1.prems"
      have "(b, e, m) = (b', e', m') \<or> (b, e, m) \<in> set (re_matches rx s e' (e' = b'))"
        by (simp add: re_matches.simps[of rx s lastp adv])
      then show ?thesis
      proof
        assume "(b, e, m) = (b', e', m')"
        with Some bem show ?thesis by blast
      next
        assume "(b, e, m) \<in> set (re_matches rx s e' (e' = b'))"
        then show ?thesis by (rule "1.IH"[OF Some bem[symmetric] refl True])
      qed
    qed
  qed
qed

text \<open>
  With \<open>keep_delimiter = False\<close> the punctuation strategy returns the stretches between
  the matches of line 136, and those hold every character of the text that is not white
  space, the delimiters among them.
\<close>

lemma drop_branch_removes_space_only:
  "split_by_punctuation text False
     = map Some (between text 0 (re_matches drop_pattern text 0 False))
   \<and> filter (\<lambda>c. \<not> isspace c) (concat (between text 0 (re_matches drop_pattern text 0 False)))
     = filter (\<lambda>c. \<not> isspace c) text"
proof
  have "groups drop_pattern = 0" by (simp add: drop_pattern_def plain_def)
  then show "split_by_punctuation text False
      = map Some (between text 0 (re_matches drop_pattern text 0 False))"
    by (simp add: split_by_punctuation_def re_split_def re_split_loop_between)
next
  have "isspace c"
    if "(b, e, m) \<in> set (re_matches drop_pattern text 0 False)" and "c \<in> set (py_slice text b e)"
    for b e m c
  proof -
    from re_matches_found[OF that(1)] obtain pos adv
      where "rx_search [LookBehind (Chars delimiters), ZeroOrMore Space] text pos adv = Some (b, e)"
      by (auto simp: drop_pattern_def plain_def)
    from rx_search_start[OF this] obtain accept
      where "rx_match [LookBehind (Chars delimiters), ZeroOrMore Space] text b accept = Some e"
      by blast
    from drop_match_is_space[OF this] that(2) have "in_cset Space c"
      by (intro slice_of_run[of b e Space "text" c]) simp_all
    then show ?thesis by simp
  qed
  from between_keeps_other_text[of drop_pattern "text" 0 False, OF this]
  show "filter (\<lambda>c. \<not> isspace c) (concat (between text 0 (re_matches drop_pattern text 0 False)))
      = filter (\<lambda>c. \<not> isspace c) text"
    by simp
qed

subsection \<open>What can be raised\<close>

lemma re_split_loop_captured_no_None:
  "None \<notin> set (re_split_loop (captured as) s lastp adv)"
proof (induction "captured as" s lastp adv rule: re_split_loop.induct)
  case (1 s lastp adv)
  show ?case
  proof (cases "search (captured as) s lastp adv")
    case None
    then show ?thesis by (simp add: re_split_loop.simps[of "captured as" s lastp adv])
  next
    case (Some bem)
    obtain b e m where bem: "bem = (b, e, m)" by (cases bem) auto
    with Some have m: "m 1 = Some (b, e)" by (auto simp: captured_def)
    have g: "groups (captured as) = 1" by (simp add: captured_def)
    show ?thesis
    proof (cases "in_contract s lastp adv b e")
      case True
      with "1.hyps"[OF Some bem[symmetric] refl True] Some bem m g show ?thesis
        by (simp add: re_split_loop.simps[of "captured as" s lastp adv] group_items_def)
    next
      case False
      with Some bem show ?thesis by (simp add: re_split_loop.simps[of "captured as" s lastp adv])
    qed
  qed
qed

lemma nonblank_total: "None \<notin> set xs \<Longrightarrow> \<exists>ys. nonblank xs = Inr ys"
  by (induction xs rule: nonblank.induct) auto

lemma refine_total: "\<exists>refined. refine segments = Inr refined"
proof (induction segments)
  case Nil
  show ?case by simp
next
  case (Cons seg segments)
  have "None \<notin> set (re_split clause_pattern seg)"
    by (simp add: re_split_def clause_pattern_def re_split_loop_captured_no_None)
  from nonblank_total[OF this] Cons show ?case by auto
qed

lemma split_intelligent_total: "\<exists>segments. split_intelligent text = Inr segments"
  using refine_total[of "with_remaining text (re_findall primary_pattern text)"]
  by (auto simp: split_intelligent_def)

text \<open>
  Nothing is raised, unless the fixed-length strategy is given the length 0, or the
  compilation of the custom pattern raises something other than \<^verbatim>\<open>re.error\<close>, or the
  custom pattern has a capturing group.
\<close>

lemma split_to_batch_returns:
  assumes "split_mode = mode_length \<longrightarrow> split_length \<noteq> 0"
      and "split_mode = mode_regex \<longrightarrow>
             (case re_compile regex_pattern of
                Compiled rx \<Rightarrow> groups rx = 0 | ReError \<Rightarrow> True | Raised e \<Rightarrow> False)"
  shows "\<exists>segments. snd (split_to_batch re_compile text split_mode max_segments split_length
            regex_pattern keep_delimiter) = Inr segments"
proof (cases "strip text = []")
  case True
  then show ?thesis by (simp add: split_to_batch_blank)
next
  case False
  have "\<exists>raw. snd (run_strategy re_compile (strip text) split_mode split_length regex_pattern
      keep_delimiter) = Inr raw \<and> None \<notin> set raw"
  proof -
    consider "split_mode = mode_pipe" | "split_mode = mode_punctuation" | "split_mode = mode_length"
      | "split_mode = mode_regex" | "split_mode = mode_intelligent"
      | "split_mode \<notin> {mode_pipe, mode_punctuation, mode_length, mode_regex, mode_intelligent}"
      by blast
    then show ?thesis
    proof cases
      case 1
      then show ?thesis by (auto simp: run_strategy_pipe)
    next
      case 2
      then show ?thesis using split_by_punctuation_no_None by (simp add: run_strategy_punctuation)
    next
      case 3
      with assms(1) show ?thesis
        by (auto simp: run_strategy_length split_by_length_def)
    next
      case 4
      show ?thesis
      proof (cases "re_compile regex_pattern")
        case ReError
        with 4 show ?thesis
          using split_by_punctuation_no_None by (simp add: run_strategy_regex)
      next
        case (Compiled rx)
        with 4 assms(2) have "groups rx = 0" by simp
        from re_split_loop_no_None[OF this] 4 Compiled show ?thesis
          by (simp add: run_strategy_regex re_split_def)
      next
        case (Raised e)
        with 4 assms(2) show ?thesis by simp
      qed
    next
      case 5
      with split_intelligent_total[of "strip text"] show ?thesis
        by (auto simp: run_strategy_intelligent)
    next
      case 6
      then show ?thesis by (simp add: run_strategy_def)
    qed
  qed
  then obtain raw where r: "snd (run_strategy re_compile (strip text) split_mode split_length
      regex_pattern keep_delimiter) = Inr raw" and "None \<notin> set raw"
    by blast
  from strip_segments_total[OF this(2)] obtain segs where "strip_segments raw = Inr segs"
    by blast
  with r False show ?thesis by (simp add: split_to_batch_result)
qed

section \<open>Evaluation\<close>

text \<open>
  The definitions that evaluate \<open>split_to_batch\<close> on a given text, once the strategy has
  run, and the ones that run the regular expressions on a given text.
\<close>

lemmas batch_eval =
  split_to_batch_def limit_and_report_def py_prefix_def preview_def
  strip_def isspace_def ascii_def Let_def

lemmas rx_eval =
  re_split_def re_findall_def re_split_loop.simps re_matches.simps
  plain_def captured_def rx_search_def rx_scan.simps run_def in_contract_def group_items_def
  py_slice_def isspace_def

lemma length_example:
  "split_by_length (ascii ''abcdefgh'') 3 = Inr [ascii ''abc'', ascii ''def'', ascii ''gh'']"
  by (simp add: split_by_length_def range_from.simps py_slice_def ascii_def)

section \<open>The claims\<close>

text \<open>
  C1. The claim: with \<open>keep_delimiter = False\<close> the punctuation strategy discards the
  delimiters, and \<^verbatim>\<open>U+4F60 U+597D U+3002 U+4E16 U+754C U+FF01\<close> (two words, each followed
  by a delimiter) gives the two words without their delimiters. The code: the pattern of
  line 136 is a look-behind followed by \<^verbatim>\<open>\s*\<close>, so a match holds white space only and
  every delimiter stays at the end of its segment; the text of the claim gives both words
  with their delimiters, and \<^verbatim>\<open>"a!! b"\<close> is split after each of the two \<^verbatim>\<open>!\<close>, not
  after the run.
\<close>

theorem keep_delimiter_false_keeps_delimiters:
  "snd (split_to_batch re_compile [0x4F60, 0x597D, 0x3002, 0x4E16, 0x754C, 0xFF01]
          mode_punctuation 10 50 regex_pattern False)
     = Inr [[0x4F60, 0x597D, 0x3002], [0x4E16, 0x754C, 0xFF01]]
   \<and> snd (split_to_batch re_compile (ascii ''a!! b'') mode_punctuation 10 50 regex_pattern False)
     = Inr [ascii ''a!'', ascii ''!'', ascii ''b'']"
proof -
  have "re_split drop_pattern [0x4F60, 0x597D, 0x3002, 0x4E16, 0x754C, 0xFF01]
      = [Some [0x4F60, 0x597D, 0x3002], Some [0x4E16, 0x754C, 0xFF01], Some []]"
    by (simp add: rx_eval drop_pattern_def delimiters_def)
  then have first: "snd (split_to_batch re_compile [0x4F60, 0x597D, 0x3002, 0x4E16, 0x754C, 0xFF01]
          mode_punctuation 10 50 regex_pattern False)
     = Inr [[0x4F60, 0x597D, 0x3002], [0x4E16, 0x754C, 0xFF01]]"
    by (simp add: batch_eval run_strategy_punctuation split_by_punctuation_def)
  have "re_split drop_pattern (ascii ''a!! b'') = [Some (ascii ''a!''), Some (ascii ''!''), Some (ascii ''b'')]"
    by (simp add: rx_eval drop_pattern_def delimiters_def ascii_def)
  then have "snd (split_to_batch re_compile (ascii ''a!! b'') mode_punctuation 10 50
      regex_pattern False) = Inr [ascii ''a!'', ascii ''!'', ascii ''b'']"
    by (simp add: batch_eval run_strategy_punctuation split_by_punctuation_def)
  with first show ?thesis by (rule conjI)
qed

text \<open>
  C2. The claim: with \<open>keep_delimiter = True\<close> the result is the matches of line 128 and,
  exactly when text is left after the last match, that text trimmed; no character is
  given twice. The code takes the end of the last match to be the sum of the lengths of
  the matches (line 130), which it is only when the first match starts at the first
  character. On \<^verbatim>\<open>".a.b"\<close> the only match is \<^verbatim>\<open>"a."\<close>, which ends at offset 3; the code
  cuts at offset 2 and adds \<^verbatim>\<open>".b"\<close>, whose first character is the last one of the match.
  On \<^verbatim>\<open>".a."\<close> nothing is left after the match and the code still adds \<^verbatim>\<open>"."\<close>.
\<close>

theorem leading_delimiter_repeats_text:
  "snd (split_to_batch re_compile (ascii ''.a.b'') mode_punctuation 10 50 regex_pattern True)
     = Inr [ascii ''a.'', ascii ''.b'']
   \<and> snd (split_to_batch re_compile (ascii ''.a.'') mode_punctuation 10 50 regex_pattern True)
     = Inr [ascii ''a.'', ascii ''.'']"
proof -
  have "re_findall keep_pattern (ascii ''.a.b'') = [ascii ''a.'']"
    by (simp add: rx_eval keep_pattern_def delimiters_def ascii_def)
  then have first: "snd (split_to_batch re_compile (ascii ''.a.b'') mode_punctuation 10 50
      regex_pattern True) = Inr [ascii ''a.'', ascii ''.b'']"
    by (simp add: batch_eval run_strategy_punctuation split_by_punctuation_def
        with_remaining_def)
  have "re_findall keep_pattern (ascii ''.a.'') = [ascii ''a.'']"
    by (simp add: rx_eval keep_pattern_def delimiters_def ascii_def)
  then have "snd (split_to_batch re_compile (ascii ''.a.'') mode_punctuation 10 50
      regex_pattern True) = Inr [ascii ''a.'', ascii ''.'']"
    by (simp add: batch_eval run_strategy_punctuation split_by_punctuation_def
        with_remaining_def)
  with first show ?thesis by (rule conjI)
qed

text \<open>
  C3, as stated: in the third pass a fragment that is under 10 characters together with
  the segment before it is never an element of its own, unless it is the very first
  segment. It fails at the second segment: the test of line 180 asks for a finalized
  segment, and while the second segment is read the first one is still in the buffer.
  \<^verbatim>\<open>"Hi!Ok!"\<close> has the segments \<^verbatim>\<open>"Hi!"\<close> and \<^verbatim>\<open>"Ok!"\<close>, 6 characters together, and
  both are elements of the result.
\<close>

theorem short_second_segment_stands_alone:
  "length (ascii ''Hi!'') + length (ascii ''Ok!'') < 10
   \<and> merge_short [] [] [ascii ''Hi!'', ascii ''Ok!''] = [ascii ''Hi!'', ascii ''Ok!'']
   \<and> snd (split_to_batch (\<lambda>p. ReError) (ascii ''Hi!Ok!'') mode_intelligent 10 50 [] True)
       = Inr [ascii ''Hi!'', ascii ''Ok!'']"
proof -
  have "re_findall primary_pattern (ascii ''Hi!Ok!'') = [ascii ''Hi!'', ascii ''Ok!'']"
    by (simp add: rx_eval primary_pattern_def terminals_def ascii_def)
  then have "split_intelligent (ascii ''Hi!Ok!'') = Inr [ascii ''Hi!'', ascii ''Ok!'']"
    by (simp add: split_intelligent_def with_remaining_def ascii_def strip_def isspace_def)
  then have "snd (split_to_batch (\<lambda>p. ReError) (ascii ''Hi!Ok!'') mode_intelligent 10 50 [] True)
       = Inr [ascii ''Hi!'', ascii ''Ok!'']"
    by (simp add: batch_eval run_strategy_intelligent)
  moreover have "merge_short [] [] [ascii ''Hi!'', ascii ''Ok!''] = [ascii ''Hi!'', ascii ''Ok!'']"
    by (simp add: ascii_def strip_def isspace_def)
  moreover have "length (ascii ''Hi!'') + length (ascii ''Ok!'') < 10"
    by (simp add: ascii_def)
  ultimately show ?thesis by blast
qed

text \<open>
  C3, amended: the third pass trims the refined segments and leaves out the empty ones;
  the first of them is an element of the result by itself (the second is never merged
  into it), and from the second on a segment joins the buffer exactly when both together
  are under 10 characters, and otherwise starts a new element; the buffer left at the end
  is the last element.
\<close>

theorem third_pass_merges_after_first_segment:
  "merge_short [] [] refined_segments
     = merged (filter (\<lambda>s. s \<noteq> []) (map strip refined_segments))"
proof -
  have "merge_short [] [] refined_segments
      = merge_short [] [] (filter (\<lambda>s. strip s \<noteq> []) refined_segments)"
    by (rule merge_short_filter)
  also have "\<dots> = merged (map strip (filter (\<lambda>s. strip s \<noteq> []) refined_segments))"
    by (rule merge_short_merged) simp
  also have "map strip (filter (\<lambda>s. strip s \<noteq> []) refined_segments)
      = filter (\<lambda>s. s \<noteq> []) (map strip refined_segments)"
    by (simp add: filter_map comp_def)
  finally show ?thesis .
qed

theorem third_pass_merges_after_first_segment_witness:
  "merge_short [] [] [ascii ''Hi!'', ascii '' Ok!'', ascii '' '', ascii ''Go!'', ascii ''A long one.'']
     = [ascii ''Hi!'', ascii ''Ok!Go!'', ascii ''A long one.'']"
proof -
  have "merged (filter (\<lambda>s. s \<noteq> [])
      (map strip [ascii ''Hi!'', ascii '' Ok!'', ascii '' '', ascii ''Go!'', ascii ''A long one.'']))
      = [ascii ''Hi!'', ascii ''Ok!Go!'', ascii ''A long one.'']"
    by (simp add: ascii_def strip_def isspace_def)
  with third_pass_merges_after_first_segment
    [of "[ascii ''Hi!'', ascii '' Ok!'', ascii '' '', ascii ''Go!'', ascii ''A long one.'']"]
  show ?thesis by (rule trans)
qed

text \<open>
  C4, as stated: for a pattern that compiles, the segments of the custom-regex strategy
  are the trimmed, non-empty stretches of text between the matches, and matched text is
  never a segment. It fails for a pattern with a capturing group. With the pattern
  \<^verbatim>\<open>([,]+)\<close> the text \<^verbatim>\<open>"a,b"\<close> gives \<^verbatim>\<open>["a", ",", "b"]\<close>, where the stretches between
  the matches are \<^verbatim>\<open>"a"\<close> and \<^verbatim>\<open>"b"\<close>: the second segment is the text of the match.
\<close>

theorem captured_group_text_is_a_segment:
  "sample_compile (ascii ''([,]+)'') = Compiled (captured [OneOrMore (Chars [0x2C])])
   \<and> snd (split_to_batch sample_compile (ascii ''a,b'') mode_regex 10 50 (ascii ''([,]+)'') True)
     = Inr [ascii ''a'', ascii '','', ascii ''b'']
   \<and> stretches (captured [OneOrMore (Chars [0x2C])]) (ascii ''a,b'') = [ascii ''a'', ascii ''b'']"
proof -
  have c: "sample_compile (ascii ''([,]+)'') = Compiled (captured [OneOrMore (Chars [0x2C])])"
    by (simp add: sample_compile_def ascii_def)
  have "re_split (captured [OneOrMore (Chars [0x2C])]) (ascii ''a,b'')
      = [Some (ascii ''a''), Some (ascii '',''), Some (ascii ''b'')]"
    by (simp add: rx_eval ascii_def)
  then have "snd (split_to_batch sample_compile (ascii ''a,b'') mode_regex 10 50
      (ascii ''([,]+)'') True) = Inr [ascii ''a'', ascii '','', ascii ''b'']"
    by (simp add: batch_eval run_strategy_regex sample_compile_def)
  moreover have "stretches (captured [OneOrMore (Chars [0x2C])]) (ascii ''a,b'')
      = [ascii ''a'', ascii ''b'']"
    by (simp add: stretches_def rx_eval ascii_def strip_def)
  ultimately show ?thesis using c by blast
qed

text \<open>
  C4, amended: for a pattern that compiles and has no capturing group, the segments of
  the custom-regex strategy are the trimmed, non-empty stretches of the trimmed text
  between the matches of the pattern, in order (cut to \<open>max_segments\<close> by lines 97 to 99
  like every result); text matched by the pattern is in no segment.
\<close>

theorem regex_without_groups_gives_text_between_matches:
  assumes "re_compile regex_pattern = Compiled rx" and "groups rx = 0"
  shows "snd (split_to_batch re_compile text mode_regex max_segments split_length regex_pattern
                keep_delimiter)
         = Inr (if int (length (stretches rx (strip text))) > max_segments
                then py_prefix (stretches rx (strip text)) max_segments
                else stretches rx (strip text))"
proof (cases "strip text = []")
  case True
  then show ?thesis by (simp add: split_to_batch_blank stretches_Nil py_prefix_def)
next
  case False
  have "run_strategy re_compile (strip text) mode_regex split_length regex_pattern keep_delimiter
      = ([], Inr (map Some (between (strip text) 0 (re_matches rx (strip text) 0 False))))"
    using assms by (simp add: run_strategy_regex re_split_def re_split_loop_between)
  with False show ?thesis
    by (simp add: split_to_batch_result strip_segments_Some stretches_def)
qed

theorem regex_without_groups_gives_text_between_matches_witness:
  "sample_compile (ascii ''[,]+'') = Compiled (plain [OneOrMore (Chars [0x2C])])
   \<and> groups (plain [OneOrMore (Chars [0x2C])]) = 0
   \<and> snd (split_to_batch sample_compile (ascii ''a,,b , c'') mode_regex 10 50 (ascii ''[,]+'') True)
     = Inr [ascii ''a'', ascii ''b'', ascii ''c'']"
proof -
  have c: "sample_compile (ascii ''[,]+'') = Compiled (plain [OneOrMore (Chars [0x2C])])"
    by (simp add: sample_compile_def)
  have g: "groups (plain [OneOrMore (Chars [0x2C])]) = 0"
    by (simp add: plain_def)
  have t: "strip (ascii ''a,,b , c'') = ascii ''a,,b , c''"
    by (simp add: ascii_def strip_def isspace_def)
  have s: "stretches (plain [OneOrMore (Chars [0x2C])]) (ascii ''a,,b , c'')
      = [ascii ''a'', ascii ''b'', ascii ''c'']"
    by (simp add: stretches_def rx_eval ascii_def strip_def)
  have "snd (split_to_batch sample_compile (ascii ''a,,b , c'') mode_regex 10 50
      (ascii ''[,]+'') True) = Inr [ascii ''a'', ascii ''b'', ascii ''c'']"
    using regex_without_groups_gives_text_between_matches
      [of sample_compile "ascii ''[,]+''" "plain [OneOrMore (Chars [0x2C])]"
          "ascii ''a,,b , c''" 10 50 True, OF c g]
    by (simp only: t s) simp
  with c g show ?thesis by blast
qed

text \<open>
  C5. For every strategy (and every other value of \<open>split_mode\<close>), every text and
  every combination of options, every string of a returned sequence is non-empty after
  trimming; it is also already trimmed.
\<close>

theorem every_segment_nonempty_after_trimming:
  assumes "snd (split_to_batch re_compile text split_mode max_segments split_length
                  regex_pattern keep_delimiter) = Inr segments"
      and "s \<in> set segments"
  shows "strip s \<noteq> [] \<and> strip s = s"
  using split_to_batch_sound[OF assms] by simp

theorem every_segment_nonempty_after_trimming_witness:
  "snd (split_to_batch (\<lambda>p. ReError) (ascii '' a| |b '') mode_pipe 10 50 [] True)
     = Inr [ascii ''a'', ascii ''b'']
   \<and> (strip (ascii ''a'') \<noteq> [] \<and> strip (ascii ''a'') = ascii ''a'')"
proof -
  have e: "snd (split_to_batch (\<lambda>p. ReError) (ascii '' a| |b '') mode_pipe 10 50 [] True)
     = Inr [ascii ''a'', ascii ''b'']"
    by (simp add: batch_eval run_strategy_pipe split_by_pipe_def)
  have m: "ascii ''a'' \<in> set [ascii ''a'', ascii ''b'']"
    by simp
  show ?thesis
    by (rule conjI [OF e every_segment_nonempty_after_trimming [OF e m]])
qed

text \<open>
  C6. For \<open>0 \<le> max_segments\<close> a returned sequence has at most \<open>max_segments\<close>
  elements. When the segments of line 95 (the strategy's candidates, trimmed, without the
  empty ones) are more than \<open>max_segments\<close>, the result is their first
  \<open>max_segments\<close> elements in order, it is a sequence and not an exception, and the
  warning of line 98 with both counts is printed.
\<close>

theorem truncation_to_max_segments:
  assumes "0 \<le> max_segments"
  shows "(\<forall>result. snd (split_to_batch re_compile text split_mode max_segments split_length
                regex_pattern keep_delimiter) = Inr result
            \<longrightarrow> int (length result) \<le> max_segments)
       \<and> (\<forall>out raw segments.
            strip text \<noteq> []
            \<and> run_strategy re_compile (strip text) split_mode split_length regex_pattern
                  keep_delimiter = (out, Inr raw)
            \<and> strip_segments raw = Inr segments
            \<and> max_segments < int (length segments)
            \<longrightarrow> snd (split_to_batch re_compile text split_mode max_segments split_length
                      regex_pattern keep_delimiter) = Inr (take (nat max_segments) segments)
                \<and> TruncationWarning (length segments) max_segments
                    \<in> set (fst (split_to_batch re_compile text split_mode max_segments
                                  split_length regex_pattern keep_delimiter)))"
proof (intro conjI allI impI)
  fix result
  assume r: "snd (split_to_batch re_compile text split_mode max_segments split_length
                regex_pattern keep_delimiter) = Inr result"
  show "int (length result) \<le> max_segments"
  proof (cases "strip text = []")
    case True
    with r assms show ?thesis by (simp add: split_to_batch_blank)
  next
    case False
    with r assms show ?thesis
      using length_py_prefix[OF assms]
      by (auto simp: split_to_batch_result split: sum.splits if_splits)
  qed
next
  fix out raw segments
  assume a: "strip text \<noteq> []
            \<and> run_strategy re_compile (strip text) split_mode split_length regex_pattern
                  keep_delimiter = (out, Inr raw)
            \<and> strip_segments raw = Inr segments
            \<and> max_segments < int (length segments)"
  then have f: "split_to_batch re_compile text split_mode max_segments split_length
      regex_pattern keep_delimiter
      = (out @ fst (limit_and_report segments max_segments),
         Inr (snd (limit_and_report segments max_segments)))"
    by (simp add: split_to_batch_full)
  from a assms show "snd (split_to_batch re_compile text split_mode max_segments split_length
                      regex_pattern keep_delimiter) = Inr (take (nat max_segments) segments)"
    by (simp add: f snd_limit_and_report py_prefix_def)
  from a show "TruncationWarning (length segments) max_segments
                    \<in> set (fst (split_to_batch re_compile text split_mode max_segments
                                  split_length regex_pattern keep_delimiter))"
    by (simp add: f fst_limit_and_report_over)
qed

theorem truncation_to_max_segments_witness:
  "(0::int) \<le> 2
   \<and> int (length [ascii ''abc'', ascii ''def'']) \<le> 2
   \<and> snd (split_to_batch (\<lambda>p. ReError) (ascii ''abcdefgh'') mode_length 2 3 [] True)
       = Inr (take (nat 2) [ascii ''abc'', ascii ''def'', ascii ''gh''])
   \<and> TruncationWarning (length [ascii ''abc'', ascii ''def'', ascii ''gh'']) 2
       \<in> set (fst (split_to_batch (\<lambda>p. ReError) (ascii ''abcdefgh'') mode_length 2 3 [] True))"
proof -
  have h: "(0::int) \<le> 2" by simp
  have s: "strip (ascii ''abcdefgh'') \<noteq> []"
    by (simp add: strip_def isspace_def ascii_def)
  have r: "run_strategy (\<lambda>p. ReError) (strip (ascii ''abcdefgh'')) mode_length 3 [] True
      = ([], Inr (map Some [ascii ''abc'', ascii ''def'', ascii ''gh'']))"
  proof -
    have "strip (ascii ''abcdefgh'') = ascii ''abcdefgh''"
      by (simp add: strip_def isspace_def ascii_def)
    then show ?thesis by (simp add: run_strategy_length length_example)
  qed
  have c: "strip_segments (map Some [ascii ''abc'', ascii ''def'', ascii ''gh''])
      = Inr [ascii ''abc'', ascii ''def'', ascii ''gh'']"
    by (simp add: strip_def isspace_def ascii_def)
  have l: "2 < int (length [ascii ''abc'', ascii ''def'', ascii ''gh''])" by simp
  note T = truncation_to_max_segments [OF h, of "\<lambda>p. ReError" "ascii ''abcdefgh''" mode_length 3 "[]" True]
  have over: "snd (split_to_batch (\<lambda>p. ReError) (ascii ''abcdefgh'') mode_length 2 3 [] True)
       = Inr (take (nat 2) [ascii ''abc'', ascii ''def'', ascii ''gh''])
   \<and> TruncationWarning (length [ascii ''abc'', ascii ''def'', ascii ''gh'']) 2
       \<in> set (fst (split_to_batch (\<lambda>p. ReError) (ascii ''abcdefgh'') mode_length 2 3 [] True))"
    by (rule T [THEN conjunct2, rule_format, OF conjI [OF s conjI [OF r conjI [OF c l]]]])
  then have "snd (split_to_batch (\<lambda>p. ReError) (ascii ''abcdefgh'') mode_length 2 3 [] True)
       = Inr [ascii ''abc'', ascii ''def'']"
    by simp
  then have "int (length [ascii ''abc'', ascii ''def'']) \<le> 2"
    by (rule T [THEN conjunct1, rule_format])
  with h over show ?thesis by blast
qed

text \<open>
  C7. If the text is empty after trimming (the empty string, or white space only), then
  for every strategy, every \<open>max_segments\<close> and every combination of options the
  result is the empty sequence; nothing is raised and nothing is printed.
\<close>

theorem blank_text_gives_no_segments:
  assumes "strip text = []"
  shows "split_to_batch re_compile text split_mode max_segments split_length regex_pattern
           keep_delimiter = ([], Inr [])"
  using assms by (simp add: split_to_batch_def)

theorem blank_text_gives_no_segments_witness:
  "strip [0x20, 0x0A, 0x3000] = []
   \<and> split_to_batch (\<lambda>p. ReError) [0x20, 0x0A, 0x3000] mode_intelligent 1 50 [] True = ([], Inr [])"
proof -
  have b: "strip [0x20, 0x0A, 0x3000] = []"
    by (simp add: strip_def isspace_def)
  show ?thesis
    by (rule conjI [OF b blank_text_gives_no_segments [OF b]])
qed





text \<open>
  C9. For \<open>1 \<le> split_length\<close> the fixed-length strategy returns the consecutive slices
  of the text that start at the offsets \<open>0\<close>, \<open>split_length\<close>, \<open>2 * split_length\<close>, ...:
  together they are the whole text, every slice but the last has exactly
  \<open>split_length\<close> characters, and the last has between one and \<open>split_length\<close>. In
  particular \<^verbatim>\<open>"abcdefgh"\<close> with \<open>split_length = 3\<close> and \<open>max_segments = 10\<close> gives
  \<^verbatim>\<open>["abc", "def", "gh"]\<close>.
\<close>

theorem fixed_length_chunks:
  assumes "1 \<le> split_length"
  shows "\<exists>chunks. split_by_length text split_length = Inr chunks
     \<and> concat chunks = text
     \<and> (\<forall>k < length chunks.
          chunks ! k = take (nat split_length) (drop (k * nat split_length) text))
     \<and> (\<forall>k. Suc k < length chunks \<longrightarrow> length (chunks ! k) = nat split_length)
     \<and> (chunks \<noteq> [] \<longrightarrow>
          0 < length (last chunks) \<and> length (last chunks) \<le> nat split_length)
     \<and> snd (split_to_batch re_compile (ascii ''abcdefgh'') mode_length 10 3 regex_pattern
            keep_delimiter) = Inr [ascii ''abc'', ascii ''def'', ascii ''gh'']"
proof -
  define n where "n = nat split_length"
  define offsets where "offsets = range_from 0 (length text) n"
  define chunks where "chunks = map (\<lambda>i. py_slice text i (i + n)) offsets"
  from assms have n: "0 < n" by (simp add: n_def)
  have run: "split_by_length text split_length = Inr chunks"
    using assms by (simp add: split_by_length_def chunks_def offsets_def n_def)
  have whole: "concat chunks = text"
    using range_from_concat[OF n, of "text" 0] by (simp add: chunks_def offsets_def)
  have len: "length chunks = length offsets"
    by (simp add: chunks_def)
  have off: "offsets ! k = k * n" if "k < length offsets" for k
    using range_from_nth[OF n, of k 0 "length text"] that by (simp add: offsets_def)
  have inside: "k * n < length text" if "k < length offsets" for k
  proof -
    from that have "offsets ! k \<in> set (range_from 0 (length text) n)"
      by (simp add: offsets_def)
    then have "offsets ! k < length text" by (rule range_from_bound)
    with off[OF that] show ?thesis by simp
  qed
  have nth: "chunks ! k = take n (drop (k * n) text)" if "k < length chunks" for k
    using that off[of k] by (simp add: chunks_def py_slice_def)
  have full: "length (chunks ! k) = n" if "Suc k < length chunks" for k
  proof -
    from that have "Suc k * n < length text" using inside[of "Suc k"] len by simp
    then have "n \<le> length text - k * n" by simp
    with that show ?thesis by (simp add: nth)
  qed
  have final: "0 < length (last chunks) \<and> length (last chunks) \<le> n" if "chunks \<noteq> []"
  proof -
    from that have k: "length chunks - 1 < length chunks" by simp
    have "last chunks = chunks ! (length chunks - 1)"
      using that by (rule last_conv_nth)
    with nth[OF k] inside[of "length chunks - 1"] k len n show ?thesis by simp
  qed
  have example: "snd (split_to_batch re_compile (ascii ''abcdefgh'') mode_length 10 3
      regex_pattern keep_delimiter) = Inr [ascii ''abc'', ascii ''def'', ascii ''gh'']"
  proof -
    have "strip (ascii ''abcdefgh'') = ascii ''abcdefgh''"
      by (simp add: strip_def isspace_def ascii_def)
    then have "run_strategy re_compile (strip (ascii ''abcdefgh'')) mode_length 3 regex_pattern
        keep_delimiter = ([], Inr (map Some [ascii ''abc'', ascii ''def'', ascii ''gh'']))"
      by (simp add: run_strategy_length length_example)
    then show ?thesis
      by (simp add: batch_eval)
  qed
  from run whole nth full final example show ?thesis
    unfolding n_def by blast
qed

theorem fixed_length_chunks_witness:
  "(1::int) \<le> 3
   \<and> (\<exists>chunks. split_by_length (ascii ''abcdefgh'') 3 = Inr chunks
     \<and> concat chunks = ascii ''abcdefgh''
     \<and> (\<forall>k < length chunks. chunks ! k = take (nat 3) (drop (k * nat 3) (ascii ''abcdefgh'')))
     \<and> (\<forall>k. Suc k < length chunks \<longrightarrow> length (chunks ! k) = nat 3)
     \<and> (chunks \<noteq> [] \<longrightarrow> 0 < length (last chunks) \<and> length (last chunks) \<le> nat 3)
     \<and> snd (split_to_batch (\<lambda>p. ReError) (ascii ''abcdefgh'') mode_length 10 3 [] True)
         = Inr [ascii ''abc'', ascii ''def'', ascii ''gh''])"
proof -
  have h: "(1::int) \<le> 3" by simp
  show ?thesis
    by (rule conjI [OF h fixed_length_chunks [OF h]])
qed

text \<open>
  C10. For a \<open>split_mode\<close> that is none of the five names, \<open>split_to_batch\<close> returns
  the empty sequence for every text, \<open>max_segments\<close> and options: no strategy runs and
  nothing is raised.
\<close>

theorem unknown_mode_gives_no_segments:
  assumes "split_mode \<notin> {mode_pipe, mode_punctuation, mode_length, mode_regex, mode_intelligent}"
  shows "snd (split_to_batch re_compile text split_mode max_segments split_length regex_pattern
           keep_delimiter) = Inr []"
proof (cases "strip text = []")
  case True
  then show ?thesis by (simp add: split_to_batch_def)
next
  case False
  from assms have "run_strategy re_compile (strip text) split_mode split_length regex_pattern
      keep_delimiter = ([], Inr [])"
    by (simp add: run_strategy_def)
  with False show ?thesis
    by (simp add: split_to_batch_result py_prefix_def)
qed

theorem unknown_mode_gives_no_segments_witness:
  "ascii ''other'' \<notin> {mode_pipe, mode_punctuation, mode_length, mode_regex, mode_intelligent}
   \<and> snd (split_to_batch (\<lambda>p. ReError) (ascii ''a|b. c'') (ascii ''other'') 10 50 [] True) = Inr []"
proof -
  have n: "ascii ''other'' \<notin> {mode_pipe, mode_punctuation, mode_length, mode_regex, mode_intelligent}"
    by (simp add: mode_defs ascii_def)
  show ?thesis
    by (rule conjI [OF n unknown_mode_gives_no_segments [OF n]])
qed

end
